theory Spec2Isabelle
  imports Main "HOL-Library.Code_Target_Nat"
begin

section \<open>The text chunker of \<open>cpp_extensions/text_chunking/text_chunker.cpp\<close>\<close>

text \<open>
  The development embeds the two exported functions \<open>split_text\<close> and
  \<open>split_text_with_word_count\<close>. A \<open>std::string\<close> is a \<open>string\<close> (a list of
  bytes), a \<open>std::vector<std::string>\<close> a list of strings, an \<open>int\<close> argument an
  \<open>int\<close> in the range of \<open>c_int\<close>, and a \<open>size_t\<close> a natural number below
  \<open>2 ^ 64\<close>.

  Conventions of the embedding:
  \<^item> a conversion of an \<open>int\<close> to \<open>size_t\<close> (the \<open>static_cast\<close>s and the implicit
    conversions of mixed operands) is \<open>size_t\<close>, reduction modulo \<open>2 ^ 64\<close>;
    \<open>size_add\<close> and \<open>size_sub\<close> are unsigned 64-bit addition and subtraction and
    are used wherever one operand comes from an \<open>int\<close>;
  \<^item> the result of an \<open>int\<close> addition, subtraction or multiplication is reduced to 32 bits in
    two's complement (\<open>wrap_int\<close>); where the exact result does not fit, C++ leaves
    the behaviour undefined, and this is the value the usual compilers compute;
  \<^item> the length of a \<open>std::string\<close> is below \<open>2 ^ 63\<close>, so a sum of string lengths
    is a sum of naturals, and \<open>a - b\<close> under the guard \<open>b < a\<close> is the difference;
  \<^item> \<open>current_chunk.reserve(chunk_size + chunk_overlap)\<close> leaves the string as it is,
    and throws \<open>std::length_error\<close> when its argument exceeds \<open>max_size()\<close>, the
    error \<open>Length_Error\<close> (\<open>reserve_throws\<close>);
  \<^item> the \<open>reserve\<close> calls on \<open>chunks\<close> request room for at most \<open>len(text) + 1\<close>
    chunks and leave the vector as it is; exhausted storage is outside the embedding,
    and these calls are not part of it. The argument of the \<open>reserve\<close> before the
    last loop divides by \<open>chunk_size - chunk_overlap\<close>; that division is evaluated,
    and a zero divisor is the error \<open>Division_By_Zero\<close>;
  \<^item> a call that would not return has the value \<open>None\<close>.
\<close>

subsection \<open>Machine integers\<close>

definition INT_MAX :: int where
  "INT_MAX = 2147483647"

definition INT_MIN :: int where
  "INT_MIN = - 2147483648"

definition c_int :: "int \<Rightarrow> bool" where
  "c_int x \<longleftrightarrow> INT_MIN \<le> x \<and> x \<le> INT_MAX"

definition wrap_int :: "int \<Rightarrow> int" where
  "wrap_int x = (x + 2 ^ 31) mod 2 ^ 32 - 2 ^ 31"

definition size_t :: "int \<Rightarrow> nat" where
  "size_t x = nat (x mod 2 ^ 64)"

definition size_add :: "nat \<Rightarrow> nat \<Rightarrow> nat" where
  "size_add a b = (a + b) mod 2 ^ 64"

definition size_sub :: "nat \<Rightarrow> nat \<Rightarrow> nat" where
  "size_sub a b = (a + 2 ^ 64 - b) mod 2 ^ 64"

text \<open>The arguments of a call are values of the parameter types.\<close>

definition representable :: "string \<Rightarrow> int \<Rightarrow> int \<Rightarrow> bool" where
  "representable text chunk_size chunk_overlap \<longleftrightarrow>
     length text < 2 ^ 63 \<and> c_int chunk_size \<and> c_int chunk_overlap"

subsection \<open>Strings\<close>

text \<open>
  \<open>s.substr(pos, n)\<close> and \<open>s.substr(pos)\<close>. Every call in the source has
  \<open>pos \<le> s.size()\<close>, where \<open>substr\<close> does not throw.
\<close>

definition substr :: "string \<Rightarrow> nat \<Rightarrow> nat \<Rightarrow> string" where
  "substr s pos n = take n (drop pos s)"

definition substr_from :: "string \<Rightarrow> nat \<Rightarrow> string" where
  "substr_from s pos = drop pos s"

text \<open>
  \<open>text.find(pat, pos)\<close>: the least index \<open>k \<ge> pos\<close> at which \<open>pat\<close> occurs,
  \<open>None\<close> for \<open>npos\<close>.
\<close>

fun find_first :: "string \<Rightarrow> string \<Rightarrow> nat option" where
  "find_first pat [] = (if pat = [] then Some 0 else None)"
| "find_first pat (c # s) =
     (if take (length pat) (c # s) = pat then Some 0
      else map_option Suc (find_first pat s))"

definition str_find :: "string \<Rightarrow> string \<Rightarrow> nat \<Rightarrow> nat option" where
  "str_find text pat pos =
     (if length text < pos then None
      else map_option (\<lambda>k. pos + k) (find_first pat (drop pos text)))"

subsection \<open>Splitting on a separator\<close>

text \<open>
  The source runs the same code twice, once with \<open>double_newline\<close> and once with
  \<open>single_newline\<close>; the tier selects the constant.
\<close>

definition double_newline :: string where
  "double_newline = [CHR 0x0A, CHR 0x0A]"

definition single_newline :: string where
  "single_newline = [CHR 0x0A]"

datatype tier = Paragraph | Line

fun separator :: "tier \<Rightarrow> string" where
  "separator Paragraph = double_newline"
| "separator Line = single_newline"

lemma find_first_bounds:
  "find_first pat s = Some k \<Longrightarrow> k + length pat \<le> length s \<and> take (length pat) (drop k s) = pat"
proof (induction s arbitrary: k)
  case Nil
  then show ?case by (simp split: if_splits)
next
  case (Cons c s)
  show ?case
  proof (cases "take (length pat) (c # s) = pat")
    case True
    with Cons.prems have k: "k = 0" by simp
    have "length (take (length pat) (c # s)) = length pat"
      using True by simp
    then have "length pat \<le> length (c # s)"
      by simp
    with True k show ?thesis by simp
  next
    case False
    with Cons.prems obtain k' where k': "find_first pat s = Some k'" "k = Suc k'"
      by auto
    from Cons.IH [OF k'(1)] k'(2) show ?thesis by simp
  qed
qed

lemma str_find_bounds:
  assumes "str_find text pat pos = Some k"
  shows "pos \<le> k" and "k + length pat \<le> length text"
    and "take (length pat) (drop k text) = pat"
proof -
  from assms obtain j where j: "find_first pat (drop pos text) = Some j" "k = pos + j"
    and pos: "pos \<le> length text"
    by (auto simp: str_find_def split: if_splits)
  from find_first_bounds [OF j(1)]
  have b: "j + length pat \<le> length text - pos"
    and t: "take (length pat) (drop j (drop pos text)) = pat"
    by simp_all
  show "pos \<le> k" using j(2) by simp
  show "k + length pat \<le> length text" using b pos j(2) by simp
  show "take (length pat) (drop k text) = pat" using t j(2) by (simp add: add.commute)
qed

lemma separator_nonempty: "0 < length (separator t)"
  by (cases t) (simp_all add: double_newline_def single_newline_def)

text \<open>
  The \<open>while\<close> loop over the occurrences of the separator. Its state is
  \<open>start_pos\<close>, \<open>splits\<close> and the flag set in the body.
\<close>

function split_loop :: "tier \<Rightarrow> string \<Rightarrow> nat \<Rightarrow> string list \<Rightarrow> bool \<Rightarrow> nat \<times> string list \<times> bool" where
  "split_loop t text start_pos splits has_splits =
     (case str_find text (separator t) start_pos of
        None \<Rightarrow> (start_pos, splits, has_splits)
      | Some next_pos \<Rightarrow>
          split_loop t text (next_pos + length (separator t))
            (splits @ [substr text start_pos (next_pos - start_pos)]) True)"
  by pat_completeness auto
termination
proof (relation "measure (\<lambda>(t, text, start_pos, splits, has_splits). length text - start_pos)")
  show "wf (measure (\<lambda>(t, text, start_pos, splits, has_splits). length text - start_pos))"
    by simp
next
  fix t :: tier and str :: string and start_pos :: nat and splits :: "string list"
    and has_splits :: bool and next_pos :: nat
  assume f: "str_find str (separator t) start_pos = Some next_pos"
  from str_find_bounds(1,2) [OF f] separator_nonempty [of t]
  have "length str - (next_pos + length (separator t)) < length str - start_pos"
    by linarith
  then show "((t, str, next_pos + length (separator t),
          splits @ [substr str start_pos (next_pos - start_pos)], True),
         (t, str, start_pos, splits, has_splits))
        \<in> measure (\<lambda>(t, text, start_pos, splits, has_splits). length text - start_pos)"
    by simp
qed

declare split_loop.simps [simp del]

text \<open>The loop followed by "add the last piece".\<close>

definition split_by :: "tier \<Rightarrow> string \<Rightarrow> string list \<times> bool" where
  "split_by t text =
     (case split_loop t text 0 [] False of
        (start_pos, splits, has_splits) \<Rightarrow>
          (if has_splits \<and> start_pos < length text
           then splits @ [substr_from text start_pos] else splits,
           has_splits))"

subsection \<open>Merging the splits into chunks\<close>

text \<open>One round of the \<open>for\<close> loop over the splits; the state is \<open>chunks\<close> and \<open>current_chunk\<close>.\<close>

definition merge_step :: "string \<Rightarrow> int \<Rightarrow> int \<Rightarrow> string list \<times> string \<Rightarrow> string \<Rightarrow> string list \<times> string" where
  "merge_step sep chunk_size chunk_overlap st split =
     (case st of (chunks, current_chunk) \<Rightarrow>
        (case
           (if current_chunk \<noteq> [] \<and>
               length current_chunk + length split + length sep > size_t chunk_size
            then (chunks @ [current_chunk],
                  if chunk_overlap > 0 \<and> length current_chunk > size_t chunk_overlap
                  then substr_from current_chunk (length current_chunk - size_t chunk_overlap)
                  else [])
            else (chunks, current_chunk))
         of (chunks', current_chunk') \<Rightarrow>
           (chunks', if current_chunk' = [] then split else current_chunk' @ sep @ split)))"

text \<open>The loop, then "add final chunk".\<close>

definition merge_splits :: "string \<Rightarrow> int \<Rightarrow> int \<Rightarrow> string list \<Rightarrow> string list \<Rightarrow> string list" where
  "merge_splits sep chunk_size chunk_overlap splits chunks =
     (case foldl (merge_step sep chunk_size chunk_overlap) (chunks, []) splits of
        (chunks', current_chunk) \<Rightarrow>
          if current_chunk \<noteq> [] then chunks' @ [current_chunk] else chunks')"

subsection \<open>The fixed-width loop\<close>

partial_function (option) fallback_loop :: "string \<Rightarrow> int \<Rightarrow> int \<Rightarrow> nat \<Rightarrow> string list \<Rightarrow> string list option" where
  "fallback_loop text chunk_size chunk_overlap i chunks =
     (if i < length text
      then (let end_pos = min (size_add i (size_t chunk_size)) (length text)
            in fallback_loop text chunk_size chunk_overlap
                 (size_add i (size_t (wrap_int (chunk_size - chunk_overlap))))
                 (chunks @ [substr text i (size_sub end_pos i)]))
      else Some chunks)"

declare fallback_loop.simps [code]

subsection \<open>\<open>split_text\<close>\<close>

datatype error = Division_By_Zero | Length_Error

text \<open>
  \<open>current_chunk.reserve(n)\<close> throws when \<open>n > max_size()\<close>. The argument is an \<open>int\<close>
  converted to \<open>size_t\<close>: a negative \<open>int\<close> is at least \<open>2 ^ 64 - 2 ^ 31\<close>, above the
  \<open>max_size()\<close> of every implementation, which is below \<open>2 ^ 63\<close>; any other \<open>int\<close> is
  below \<open>2 ^ 31\<close> and within it.
\<close>

definition reserve_throws :: "nat \<Rightarrow> bool" where
  "reserve_throws n \<longleftrightarrow> 2 ^ 63 \<le> n"

definition split_text :: "string \<Rightarrow> int \<Rightarrow> int \<Rightarrow> (error + string list) option" where
  "split_text text chunk_size chunk_overlap =
     (if length text \<le> size_t chunk_size then Some (Inr [text])
      else
        (case split_by Paragraph text of (splits, has_paragraph_splits) \<Rightarrow>
           if has_paragraph_splits
              \<and> reserve_throws (size_t (wrap_int (chunk_size + chunk_overlap)))
           then Some (Inl Length_Error)
           else
             let chunks = (if has_paragraph_splits
                           then merge_splits double_newline chunk_size chunk_overlap splits []
                           else [])
             in if has_paragraph_splits \<and> chunks \<noteq> [] then Some (Inr chunks)
                else
                  (case split_by Line text of (splits', has_newline_splits) \<Rightarrow>
                     if has_newline_splits
                        \<and> reserve_throws (size_t (wrap_int (chunk_size + chunk_overlap)))
                     then Some (Inl Length_Error)
                     else
                       let chunks' = (if has_newline_splits
                                      then merge_splits single_newline chunk_size chunk_overlap splits' chunks
                                      else chunks)
                       in if has_newline_splits \<and> chunks' \<noteq> [] then Some (Inr chunks')
                          else if size_t (wrap_int (chunk_size - chunk_overlap)) = 0
                          then Some (Inl Division_By_Zero)
                          else map_option Inr (fallback_loop text chunk_size chunk_overlap 0 []))))"

subsection \<open>\<open>split_text_with_word_count\<close>\<close>

text \<open>\<open>isspace\<close> in the "C" locale: space, tab, line feed, vertical tab, form feed, carriage return.\<close>

definition isspace :: "char \<Rightarrow> bool" where
  "isspace c \<longleftrightarrow> c \<in> set [CHR 0x20, CHR 0x09, CHR 0x0A, CHR 0x0B, CHR 0x0C, CHR 0x0D]"

text \<open>One round of the loop over the sample; the state is \<open>word_count\<close> and \<open>in_word\<close>.\<close>

definition count_step :: "nat \<times> bool \<Rightarrow> char \<Rightarrow> nat \<times> bool" where
  "count_step st c =
     (case st of (word_count, in_word) \<Rightarrow>
        if isspace c then (word_count, False)
        else if \<not> in_word then (word_count + 1, True)
        else (word_count, in_word))"

definition sample_size :: "string \<Rightarrow> nat" where
  "sample_size text = min (length text) 500"

definition word_count :: "string \<Rightarrow> nat" where
  "word_count text = fst (foldl count_step (0, False) (substr text 0 (sample_size text)))"

definition avg_word_length :: "string \<Rightarrow> int" where
  "avg_word_length text =
     (if word_count text > 0 then int (sample_size text div word_count text) + 1 else 6)"

definition chunk_size_chars :: "string \<Rightarrow> int \<Rightarrow> int" where
  "chunk_size_chars text chunk_size_words = wrap_int (chunk_size_words * avg_word_length text)"

definition chunk_overlap_chars :: "string \<Rightarrow> int \<Rightarrow> int" where
  "chunk_overlap_chars text chunk_overlap_words = wrap_int (chunk_overlap_words * avg_word_length text)"

definition split_text_with_word_count :: "string \<Rightarrow> int \<Rightarrow> int \<Rightarrow> (error + string list) option" where
  "split_text_with_word_count text chunk_size_words chunk_overlap_words =
     split_text text (chunk_size_chars text chunk_size_words)
       (chunk_overlap_chars text chunk_overlap_words)"

subsection \<open>Rejoining segments\<close>

text \<open>
  The segments of a tier "rejoined by inserting that separator between consecutive
  segments", in the words of the specification.
\<close>

fun join :: "string \<Rightarrow> string list \<Rightarrow> string" where
  "join sep [] = []"
| "join sep [s] = s"
| "join sep (s # s' # ss) = s @ sep @ join sep (s' # ss)"

subsection \<open>Removing the overlap\<close>

text \<open>
  The chunks concatenated "after stripping, from every chunk after the first, its
  leading \<open>chunk_overlap\<close>-sized carry", in the words of the specification; \<open>n\<close> is
  the number of characters removed.
\<close>

fun reassemble :: "nat \<Rightarrow> string list \<Rightarrow> string" where
  "reassemble n [] = []"
| "reassemble n (c # cs) = c @ concat (map (drop n) cs)"

section \<open>Properties\<close>

subsection \<open>Conversions\<close>

lemma size_t_nat: "0 \<le> x \<Longrightarrow> c_int x \<Longrightarrow> size_t x = nat x"
  by (simp add: size_t_def c_int_def INT_MAX_def)

lemma size_t_neg: "x < 0 \<Longrightarrow> c_int x \<Longrightarrow> size_t x = nat (2 ^ 64 + x)"
proof -
  assume a: "x < 0" "c_int x"
  then have "0 \<le> 2 ^ 64 + x" "2 ^ 64 + x < 2 ^ 64"
    by (simp_all add: c_int_def INT_MIN_def)
  then have "(2 ^ 64 + x) mod 2 ^ 64 = 2 ^ 64 + x"
    by (rule mod_pos_pos_trivial)
  then have "x mod 2 ^ 64 = 2 ^ 64 + x"
    by simp
  then show ?thesis by (simp add: size_t_def)
qed

lemma wrap_int_id: "c_int x \<Longrightarrow> wrap_int x = x"
  by (simp add: wrap_int_def c_int_def INT_MAX_def INT_MIN_def)

subsection \<open>The short-circuit\<close>

text \<open>
  Claim C6. A text with \<open>len(text) \<le> chunk_size\<close> is returned as exactly one chunk,
  the text itself, for every valid \<open>chunk_overlap\<close>.
\<close>

theorem short_text_single_chunk:
  assumes "int (length text) \<le> chunk_size" and "c_int chunk_size"
    and "0 < chunk_overlap" and "chunk_overlap < chunk_size"
  shows "split_text text chunk_size chunk_overlap = Some (Inr [text])"
proof -
  have "0 \<le> chunk_size" using assms(1) by linarith
  then have "size_t chunk_size = nat chunk_size"
    using assms(2) by (rule size_t_nat)
  then have "length text \<le> size_t chunk_size"
    using assms(1) by linarith
  then show ?thesis by (simp add: split_text_def)
qed

theorem short_text_single_chunk_witness:
  "int (length ''abc'') \<le> 5 \<and> c_int 5 \<and> (0::int) < 2 \<and> (2::int) < 5
   \<and> split_text ''abc'' 5 2 = Some (Inr [''abc''])"
  using short_text_single_chunk [of "''abc''" 5 2]
  by (simp add: c_int_def INT_MAX_def INT_MIN_def)

subsection \<open>Configurations that are not valid\<close>

text \<open>
  Claim C1, as stated, fails: there is no validation in \<open>split_text\<close>. With
  \<open>chunk_size = 100\<close> and \<open>chunk_overlap = 100\<close> or \<open>150\<close> a short text comes back as
  one chunk, and with \<open>chunk_overlap = 150\<close> a text of 101 characters without line
  breaks passes both separator tiers and goes through the fixed-width loop, which
  returns its first 100 characters: the stride \<open>- 50\<close> is a \<open>size_t\<close> just below
  \<open>2 ^ 64\<close>, and the loop ends after one round.
\<close>

theorem no_config_error_counterexample:
  "split_text ''abc'' 100 100 = Some (Inr [''abc''])
   \<and> split_text ''abc'' 100 150 = Some (Inr [''abc''])
   \<and> split_text (replicate 101 (CHR ''a'')) 100 150 = Some (Inr [replicate 100 (CHR ''a'')])
   \<and> split_by Paragraph (replicate 101 (CHR ''a'')) = ([], False)
   \<and> split_by Line (replicate 101 (CHR ''a'')) = ([], False)
   \<and> fallback_loop (replicate 101 (CHR ''a'')) 100 150 0 [] = Some [replicate 100 (CHR ''a'')]"
  by code_simp

text \<open>
  Claim C1, amended. No configuration is rejected: when \<open>chunk_overlap \<ge> chunk_size\<close>,
  or \<open>chunk_size\<close> or \<open>chunk_overlap\<close> is not positive, a text that is not longer than
  \<open>chunk_size\<close> (every text, when \<open>chunk_size\<close> is negative) is returned as one chunk,
  before any splitting.
\<close>

theorem invalid_config_not_rejected:
  assumes "chunk_size \<le> chunk_overlap \<or> chunk_size \<le> 0 \<or> chunk_overlap \<le> 0"
    and "c_int chunk_size" and "length text < 2 ^ 63"
    and "chunk_size < 0 \<or> int (length text) \<le> chunk_size"
  shows "split_text text chunk_size chunk_overlap = Some (Inr [text])"
proof -
  have "length text \<le> size_t chunk_size"
  proof (cases "chunk_size < 0")
    case True
    have "(2::int) ^ 63 \<le> 2 ^ 64 + chunk_size"
      using assms(2) by (simp add: c_int_def INT_MIN_def)
    then have "(2::nat) ^ 63 \<le> nat (2 ^ 64 + chunk_size)"
      by simp
    then show ?thesis
      using assms(3) size_t_neg [OF True assms(2)] by simp
  next
    case False
    with assms(4) have "int (length text) \<le> chunk_size" by simp
    moreover have "size_t chunk_size = nat chunk_size"
      using False assms(2) by (simp add: size_t_nat)
    ultimately show ?thesis by linarith
  qed
  then show ?thesis by (simp add: split_text_def)
qed

theorem invalid_config_not_rejected_witness:
  "((100::int) \<le> 150 \<or> (100::int) \<le> 0 \<or> (150::int) \<le> 0) \<and> c_int 100
   \<and> length ''abc'' < 2 ^ 63 \<and> ((100::int) < 0 \<or> int (length ''abc'') \<le> 100)
   \<and> split_text ''abc'' 100 150 = Some (Inr [''abc''])"
  using invalid_config_not_rejected [of 100 150 "''abc''"]
  by (simp add: c_int_def INT_MAX_def INT_MIN_def)

subsection \<open>The word-length estimate\<close>

lemma foldl_count_step_spaces:
  "\<forall>c\<in>set xs. isspace c \<Longrightarrow> fst (foldl count_step (n, b) xs) = n"
  by (induction xs arbitrary: b) (simp_all add: count_step_def)

lemma foldl_count_step_le:
  "fst (foldl count_step (n, b) xs) \<le> n + length xs"
proof (induction xs arbitrary: n b)
  case Nil
  show ?case by simp
next
  case (Cons c xs)
  have "count_step (n, b) c = (n, False) \<or> count_step (n, b) c = (n + 1, True)
        \<or> count_step (n, b) c = (n, b)"
    by (simp add: count_step_def)
  then show ?case
    using Cons.IH [of n False] Cons.IH [of "n + 1" True] Cons.IH [of n b]
    by auto
qed

lemma word_count_le_sample: "word_count text \<le> sample_size text"
  using foldl_count_step_le [of 0 False "substr text 0 (sample_size text)"]
  by (simp add: word_count_def substr_def sample_size_def)

lemma avg_word_length_ge_2: "2 \<le> avg_word_length text"
proof (cases "word_count text > 0")
  case True
  then have "1 \<le> sample_size text div word_count text"
    using word_count_le_sample [of "text"] by (simp add: Suc_le_eq div_greater_zero_iff)
  with True show ?thesis by (simp add: avg_word_length_def)
next
  case False
  then show ?thesis by (simp add: avg_word_length_def)
qed

text \<open>
  Claim C8. When the first 500 characters of the text are all whitespace (or the text
  is empty), \<open>avg_word_length\<close> is 6 and \<open>split_text_with_word_count text 10 2\<close> is
  \<open>split_text text 60 12\<close>.
\<close>

theorem whitespace_sample_default:
  assumes "\<forall>c\<in>set (take 500 text). isspace c"
  shows "avg_word_length text = 6
         \<and> split_text_with_word_count text 10 2 = split_text text 60 12"
proof -
  have "substr text 0 (sample_size text) = take 500 text"
    by (simp add: substr_def sample_size_def min_def)
  then have "word_count text = 0"
    using assms foldl_count_step_spaces [of "take 500 text" 0 False]
    by (simp add: word_count_def)
  then have avg: "avg_word_length text = 6"
    by (simp add: avg_word_length_def)
  have "chunk_size_chars text 10 = 60" "chunk_overlap_chars text 2 = 12"
    by (simp_all add: chunk_size_chars_def chunk_overlap_chars_def avg wrap_int_def)
  with avg show ?thesis
    by (simp add: split_text_with_word_count_def)
qed

theorem whitespace_sample_default_witness:
  "isspace (CHR '' '') \<and> avg_word_length ''  '' = 6
   \<and> split_text_with_word_count ''  '' 10 2 = split_text ''  '' 60 12"
  using whitespace_sample_default [of "''  ''"]
  by (simp add: isspace_def)

text \<open>
  Claim C9, as stated, fails where the product overflows the \<open>int\<close>: for the text
  \<open>''a''\<close> the estimate is 2, and \<open>chunk_size_words = 1073741824\<close> gives a negative
  \<open>chunk_size_chars\<close>.
\<close>

theorem word_wrapper_overflow_counterexample:
  "(0::int) < 1 \<and> (1::int) < 1073741824 \<and> c_int 1073741824
   \<and> avg_word_length ''a'' = 2
   \<and> chunk_overlap_chars ''a'' 1 = 2
   \<and> chunk_size_chars ''a'' 1073741824 = - 2147483648"
  by code_simp

text \<open>
  Claim C9, amended. \<open>avg_word_length\<close> is at least 2, and whenever
  \<open>0 < chunk_overlap_words < chunk_size_words\<close> and
  \<open>chunk_size_words * avg_word_length\<close> does not exceed \<open>INT_MAX\<close>, the character
  counts passed to \<open>split_text\<close> satisfy \<open>0 < chunk_overlap_chars < chunk_size_chars\<close>.
\<close>

theorem word_wrapper_keeps_invariant:
  assumes "0 < chunk_overlap_words" and "chunk_overlap_words < chunk_size_words"
    and "chunk_size_words * avg_word_length text \<le> INT_MAX"
  shows "2 \<le> avg_word_length text
         \<and> 0 < chunk_overlap_chars text chunk_overlap_words
         \<and> chunk_overlap_chars text chunk_overlap_words < chunk_size_chars text chunk_size_words"
proof -
  let ?a = "avg_word_length text"
  have a: "2 \<le> ?a" by (rule avg_word_length_ge_2)
  then have pos: "0 < ?a" by simp
  have lt: "chunk_overlap_words * ?a < chunk_size_words * ?a"
    using assms(2) pos by simp
  have p: "0 < chunk_overlap_words * ?a"
    using assms(1) pos by simp
  have "c_int (chunk_overlap_words * ?a)" "c_int (chunk_size_words * ?a)"
    using lt p assms(3) by (simp_all add: c_int_def INT_MIN_def)
  then have "chunk_overlap_chars text chunk_overlap_words = chunk_overlap_words * ?a"
    "chunk_size_chars text chunk_size_words = chunk_size_words * ?a"
    by (simp_all add: chunk_overlap_chars_def chunk_size_chars_def wrap_int_id)
  with a lt p show ?thesis by simp
qed

theorem word_wrapper_keeps_invariant_witness:
  "(0::int) < 2 \<and> (2::int) < 10 \<and> 10 * avg_word_length ''ab cd'' \<le> INT_MAX
   \<and> 2 \<le> avg_word_length ''ab cd''
   \<and> 0 < chunk_overlap_chars ''ab cd'' 2
   \<and> chunk_overlap_chars ''ab cd'' 2 < chunk_size_chars ''ab cd'' 10"
proof -
  have avg: "avg_word_length ''ab cd'' = 3" by code_simp
  show ?thesis
    using word_wrapper_keeps_invariant [of 2 10 "''ab cd''"]
    by (simp add: avg INT_MAX_def)
qed

subsection \<open>The greedy merge\<close>

lemma merge_step_empty:
  "merge_step sep chunk_size chunk_overlap (chunks, current_chunk) split = (chunks', current_chunk')
   \<Longrightarrow> (chunks' = [] \<and> current_chunk' = []) = (chunks = [] \<and> current_chunk = [] \<and> split = [])"
  by (auto simp: merge_step_def split: if_splits)

lemma foldl_merge_step_empty:
  "foldl (merge_step sep chunk_size chunk_overlap) (chunks, current_chunk) splits = (chunks', current_chunk')
   \<Longrightarrow> (chunks' = [] \<and> current_chunk' = [])
       = (chunks = [] \<and> current_chunk = [] \<and> (\<forall>s\<in>set splits. s = []))"
proof (induction splits arbitrary: chunks current_chunk)
  case Nil
  then show ?case by simp
next
  case (Cons s splits)
  obtain c1 b1 where st: "merge_step sep chunk_size chunk_overlap (chunks, current_chunk) s = (c1, b1)"
    by (cases "merge_step sep chunk_size chunk_overlap (chunks, current_chunk) s")
  with Cons.prems have "foldl (merge_step sep chunk_size chunk_overlap) (c1, b1) splits = (chunks', current_chunk')"
    by simp
  from Cons.IH [OF this] merge_step_empty [OF st] show ?case
    by auto
qed

text \<open>
  Claim C5, as stated, fails: the text of four line breaks has the two empty paragraph
  segments \<open>[[], []]\<close>, and the merge of these emits no chunk.
\<close>

theorem merge_all_empty_counterexample:
  "split_by Paragraph [CHR 0x0A, CHR 0x0A, CHR 0x0A, CHR 0x0A] = ([[], []], True)
   \<and> merge_splits (separator Paragraph) 3 1 [[], []] [] = []"
  by code_simp

text \<open>
  Claim C5, amended. For every separator and configuration, the merge returns the empty
  chunk sequence if and only if every segment is empty (in particular when there is no
  segment); one non-empty segment is enough for at least one chunk.
\<close>

theorem merge_empty_iff:
  "merge_splits sep chunk_size chunk_overlap splits [] = [] \<longleftrightarrow> (\<forall>s\<in>set splits. s = [])"
proof -
  obtain c b where f: "foldl (merge_step sep chunk_size chunk_overlap) ([], []) splits = (c, b)"
    by (cases "foldl (merge_step sep chunk_size chunk_overlap) ([], []) splits")
  from foldl_merge_step_empty [OF f] f show ?thesis
    by (auto simp: merge_splits_def)
qed

theorem merge_empty_iff_witness:
  "merge_splits double_newline 3 1 [[], []] [] = []
   \<and> merge_splits double_newline 3 1 [''ab'', []] [] \<noteq> []"
  using merge_empty_iff [of double_newline 3 1 "[[], []]"]
    merge_empty_iff [of double_newline 3 1 "[''ab'', []]"]
  by simp

subsection \<open>Segments and the text\<close>

lemma join_snoc: "join sep (ss @ [r]) = concat (map (\<lambda>s. s @ sep) ss) @ r"
proof (induction ss)
  case Nil
  show ?case by simp
next
  case (Cons s ss)
  then show ?case by (cases ss) simp_all
qed

lemma join_sep: "ss \<noteq> [] \<Longrightarrow> join sep ss @ sep = concat (map (\<lambda>s. s @ sep) ss)"
  by (induction sep ss rule: join.induct) simp_all

lemma split_loop_invariant:
  "split_loop t str start_pos splits has_splits = (start_pos', splits', has_splits')
   \<Longrightarrow> start_pos \<le> length str
   \<Longrightarrow> concat (map (\<lambda>s. s @ separator t) splits) = take start_pos str
   \<Longrightarrow> has_splits = (splits \<noteq> [])
   \<Longrightarrow> start_pos' \<le> length str
       \<and> concat (map (\<lambda>s. s @ separator t) splits') = take start_pos' str
       \<and> has_splits' = (splits' \<noteq> [])"
proof (induction t str start_pos splits has_splits rule: split_loop.induct)
  case (1 t str start_pos splits has_splits)
  show ?case
  proof (cases "str_find str (separator t) start_pos")
    case None
    with "1.prems" show ?thesis by (auto simp: split_loop.simps [of t str start_pos])
  next
    case (Some next_pos)
    note b = str_find_bounds [OF Some]
    let ?splits = "splits @ [substr str start_pos (next_pos - start_pos)]"
    have run: "split_loop t str (next_pos + length (separator t)) ?splits True
               = (start_pos', splits', has_splits')"
      using "1.prems"(1) Some by (simp add: split_loop.simps [of t str start_pos])
    have "take start_pos str @ take (next_pos - start_pos) (drop start_pos str)
          = take next_pos str"
      using b(1) take_add [of start_pos "next_pos - start_pos" str] by simp
    then have "concat (map (\<lambda>s. s @ separator t) ?splits)
          = take next_pos str @ take (length (separator t)) (drop next_pos str)"
      using "1.prems"(3) b(3) by (simp add: substr_def)
    also have "\<dots> = take (next_pos + length (separator t)) str"
      by (simp add: take_add)
    finally have inv: "concat (map (\<lambda>s. s @ separator t) ?splits)
          = take (next_pos + length (separator t)) str" .
    show ?thesis
      using "1.IH" [OF Some run b(2) inv] by simp
  qed
qed

text \<open>
  Claim C2, as stated, fails for a text that ends with the separator: \<open>a\<close> followed by
  two line breaks has the single paragraph segment \<open>a\<close>, and the final separator is
  lost in rejoining.
\<close>

theorem trailing_separator_counterexample:
  "split_by Paragraph [CHR ''a'', CHR 0x0A, CHR 0x0A] = ([''a''], True)
   \<and> join (separator Paragraph) [''a''] \<noteq> [CHR ''a'', CHR 0x0A, CHR 0x0A]"
  by code_simp

text \<open>
  Claim C2, amended. For every text in which the separator of the tier occurs, the
  segments in order, rejoined with the separator, are the text itself or the text
  without one final separator: no character is dropped or reordered except a separator
  that ends the text. Hence the rejoined segments are the text whenever the text does
  not end with the separator, consecutive separators included.
\<close>

theorem segments_rejoin:
  assumes "split_by t text = (segments, True)"
  shows "join (separator t) segments = text \<or> join (separator t) segments @ separator t = text"
proof -
  obtain start_pos splits has_splits
    where run: "split_loop t text 0 [] False = (start_pos, splits, has_splits)"
    by (cases "split_loop t text 0 [] False")
  from split_loop_invariant [OF run]
  have le: "start_pos \<le> length text"
    and inv: "concat (map (\<lambda>s. s @ separator t) splits) = take start_pos text"
    and has: "has_splits = (splits \<noteq> [])"
    by simp_all
  from assms run have h: "has_splits"
    and segs: "segments = (if start_pos < length text then splits @ [substr_from text start_pos] else splits)"
    by (auto simp: split_by_def)
  show ?thesis
  proof (cases "start_pos < length text")
    case True
    with segs inv have "join (separator t) segments = text"
      by (simp add: join_snoc substr_from_def)
    then show ?thesis ..
  next
    case False
    with le have "take start_pos text = text" by simp
    with False segs inv h has have "join (separator t) segments @ separator t = text"
      by (simp add: join_sep)
    then show ?thesis ..
  qed
qed

theorem segments_rejoin_witness:
  "split_by Paragraph [CHR ''a'', CHR 0x0A, CHR 0x0A, CHR ''b''] = ([''a'', ''b''], True)
   \<and> (join (separator Paragraph) [''a'', ''b''] = [CHR ''a'', CHR 0x0A, CHR 0x0A, CHR ''b'']
        \<or> join (separator Paragraph) [''a'', ''b''] @ separator Paragraph
            = [CHR ''a'', CHR 0x0A, CHR 0x0A, CHR ''b''])"
proof -
  have sp: "split_by Paragraph [CHR ''a'', CHR 0x0A, CHR 0x0A, CHR ''b''] = ([''a'', ''b''], True)"
    by code_simp
  from segments_rejoin [OF sp] sp show ?thesis by simp
qed

subsection \<open>The fixed-width loop\<close>

lemma fallback_loop_step:
  "i < length text \<Longrightarrow>
   fallback_loop text chunk_size chunk_overlap i chunks =
   fallback_loop text chunk_size chunk_overlap
     (size_add i (size_t (wrap_int (chunk_size - chunk_overlap))))
     (chunks @ [substr text i (size_sub (min (size_add i (size_t chunk_size)) (length text)) i)])"
  by (subst fallback_loop.simps) (simp add: Let_def)

lemma fallback_loop_stop:
  "\<not> i < length text \<Longrightarrow> fallback_loop text chunk_size chunk_overlap i chunks = Some chunks"
  by (subst fallback_loop.simps) simp

lemma size_add_exact: "a + b < 2 ^ 64 \<Longrightarrow> size_add a b = a + b"
  by (simp add: size_add_def)

lemma size_sub_exact: "b \<le> a \<Longrightarrow> a < 2 ^ 64 \<Longrightarrow> size_sub a b = a - b"
proof -
  assume a: "b \<le> a" "a < 2 ^ 64"
  then have e: "a + 2 ^ 64 - b = (a - b) + 2 ^ 64" by linarith
  have "size_sub a b = ((a - b) + 2 ^ 64) mod 2 ^ 64"
    unfolding size_sub_def e ..
  also have "\<dots> = (a - b) mod 2 ^ 64" by (rule mod_add_self2)
  also have "\<dots> = a - b" using a by (intro mod_less) linarith
  finally show ?thesis .
qed

lemma fallback_loop_rule:
  assumes S: "stride = size_t (wrap_int (chunk_size - chunk_overlap))" "0 < stride"
    and nowrap: "length text + stride \<le> 2 ^ 64"
    and P: "P i chunks"
    and step: "\<And>i chunks. P i chunks \<Longrightarrow> i < length text \<Longrightarrow>
       P (i + stride)
         (chunks @ [substr text i (size_sub (min (size_add i (size_t chunk_size)) (length text)) i)])"
  shows "\<exists>r j. fallback_loop text chunk_size chunk_overlap i chunks = Some r
               \<and> length text \<le> j \<and> P j r"
  using P
proof (induction "length text - i" arbitrary: i chunks rule: less_induct)
  case less
  show ?case
  proof (cases "i < length text")
    case False
    then have "fallback_loop text chunk_size chunk_overlap i chunks = Some chunks"
      by (rule fallback_loop_stop)
    moreover have "length text \<le> i" using False by simp
    ultimately show ?thesis using less.prems by blast
  next
    case True
    let ?c = "substr text i (size_sub (min (size_add i (size_t chunk_size)) (length text)) i)"
    have "i + stride < 2 ^ 64" using True nowrap by linarith
    then have next_i: "size_add i stride = i + stride" by (rule size_add_exact)
    have unfold: "fallback_loop text chunk_size chunk_overlap i chunks
          = fallback_loop text chunk_size chunk_overlap (i + stride) (chunks @ [?c])"
      using fallback_loop_step [OF True, of chunk_size chunk_overlap chunks] next_i S(1) by simp
    have "length text - (i + stride) < length text - i"
      using True S(2) by linarith
    from less.hyps [OF this step [OF less.prems True]] unfold show ?thesis
      by simp
  qed
qed

lemma fallback_chunk:
  assumes "i < length text" and "length text < 2 ^ 63" and "C < 2 ^ 63"
  shows "substr text i (size_sub (min (size_add i C) (length text)) i) = take C (drop i text)"
proof -
  have "i + C < 2 ^ 64" using assms by simp
  then have a: "size_add i C = i + C" by (rule size_add_exact)
  have "size_sub (min (i + C) (length text)) i = min (i + C) (length text) - i"
    using assms by (intro size_sub_exact) simp_all
  also have "\<dots> = min C (length text - i)" using assms(1) by simp
  finally show ?thesis
    by (simp add: a substr_def min_def)
qed

text \<open>
  Claim C7. When \<open>chunk_overlap < chunk_size\<close>, the fixed-width loop, started as in the
  source at \<open>i = 0\<close> with no chunks, returns for every text.
\<close>

theorem fallback_loop_terminates:
  assumes "chunk_overlap < chunk_size"
    and "representable text chunk_size chunk_overlap"
  shows "\<exists>chunks. fallback_loop text chunk_size chunk_overlap 0 [] = Some chunks"
proof -
  let ?d = "chunk_size - chunk_overlap"
  let ?S = "size_t (wrap_int ?d)"
  from assms(2) have len: "length text < 2 ^ 63"
    and cs: "c_int chunk_size" and co: "c_int chunk_overlap"
    by (simp_all add: representable_def)
  show ?thesis
  proof (cases "?d \<le> INT_MAX")
    case True
    with assms(1) have "c_int ?d" by (simp add: c_int_def INT_MIN_def)
    then have "wrap_int ?d = ?d" by (rule wrap_int_id)
    moreover have "size_t ?d = nat ?d"
      using assms(1) \<open>c_int ?d\<close> by (simp add: size_t_nat)
    ultimately have S: "?S = nat ?d" by simp
    have pos: "0 < ?S" using S assms(1) by simp
    have "?S < 2 ^ 63" using S True by (simp add: INT_MAX_def)
    with len have nowrap: "length text + ?S \<le> 2 ^ 64" by simp
    from fallback_loop_rule [where P = "\<lambda>i chunks. True", OF refl pos nowrap]
    show ?thesis by blast
  next
    case False
    have lo: "2 ^ 31 \<le> ?d" using False by (simp add: INT_MAX_def)
    have hi: "?d < 2 ^ 32"
      using cs co by (simp add: c_int_def INT_MAX_def INT_MIN_def)
    have "(?d + 2 ^ 31) mod 2 ^ 32 = ?d + 2 ^ 31 - 2 ^ 32"
      using lo hi by (simp add: mod_pos_geq)
    then have w: "wrap_int ?d = ?d - 2 ^ 32" by (simp add: wrap_int_def)
    have "c_int (?d - 2 ^ 32)" "?d - 2 ^ 32 < 0"
      using lo hi by (simp_all add: c_int_def INT_MIN_def INT_MAX_def)
    then have "size_t (?d - 2 ^ 32) = nat (2 ^ 64 + (?d - 2 ^ 32))"
      using size_t_neg by blast
    with w have S: "?S = nat (2 ^ 64 + (?d - 2 ^ 32))" by simp
    have big: "2 ^ 63 \<le> ?S" using S lo by simp
    have small: "?S < 2 ^ 64" using S hi by simp
    show ?thesis
    proof (cases "0 < length text")
      case False
      then show ?thesis by (simp add: fallback_loop_stop)
    next
      case True
      have "size_add 0 ?S = ?S" using small by (simp add: size_add_def)
      then have "\<not> size_add 0 ?S < length text" using big len by simp
      then show ?thesis
        using fallback_loop_step [OF True, of chunk_size chunk_overlap "[]"]
        by (simp add: fallback_loop_stop)
    qed
  qed
qed

theorem fallback_loop_terminates_witness:
  "(1::int) < 4 \<and> representable ''abcdefghij'' 4 1
   \<and> (\<exists>chunks. fallback_loop ''abcdefghij'' 4 1 0 [] = Some chunks)"
proof -
  have r: "representable ''abcdefghij'' 4 1"
    by (simp add: representable_def c_int_def INT_MAX_def INT_MIN_def)
  from fallback_loop_terminates [OF _ r] r show ?thesis by simp
qed

subsection \<open>\<open>split_text\<close> under a valid configuration\<close>

text \<open>
  When the line tier is reached, \<open>chunks\<close> is still empty, so \<open>split_text\<close> is a
  chain of attempts.
\<close>

lemma split_text_cases:
  "split_text text chunk_size chunk_overlap =
     (if length text \<le> size_t chunk_size then Some (Inr [text])
      else if snd (split_by Paragraph text)
              \<and> reserve_throws (size_t (wrap_int (chunk_size + chunk_overlap)))
      then Some (Inl Length_Error)
      else if snd (split_by Paragraph text)
              \<and> merge_splits double_newline chunk_size chunk_overlap (fst (split_by Paragraph text)) [] \<noteq> []
      then Some (Inr (merge_splits double_newline chunk_size chunk_overlap (fst (split_by Paragraph text)) []))
      else if snd (split_by Line text)
              \<and> reserve_throws (size_t (wrap_int (chunk_size + chunk_overlap)))
      then Some (Inl Length_Error)
      else if snd (split_by Line text)
              \<and> merge_splits single_newline chunk_size chunk_overlap (fst (split_by Line text)) [] \<noteq> []
      then Some (Inr (merge_splits single_newline chunk_size chunk_overlap (fst (split_by Line text)) []))
      else if size_t (wrap_int (chunk_size - chunk_overlap)) = 0 then Some (Inl Division_By_Zero)
      else map_option Inr (fallback_loop text chunk_size chunk_overlap 0 []))"
  by (auto simp: split_text_def Let_def split: prod.splits)

lemma valid_config_sizes:
  assumes "0 < chunk_overlap" and "chunk_overlap < chunk_size"
    and "c_int chunk_size" and "c_int chunk_overlap"
  shows "size_t chunk_size = nat chunk_size"
    and "size_t chunk_overlap = nat chunk_overlap"
    and "size_t (wrap_int (chunk_size - chunk_overlap)) = nat (chunk_size - chunk_overlap)"
proof -
  show "size_t chunk_size = nat chunk_size"
    using assms by (simp add: size_t_nat)
  show "size_t chunk_overlap = nat chunk_overlap"
    using assms by (simp add: size_t_nat)
  have d: "c_int (chunk_size - chunk_overlap)"
    using assms by (simp add: c_int_def INT_MIN_def)
  then have "wrap_int (chunk_size - chunk_overlap) = chunk_size - chunk_overlap"
    by (rule wrap_int_id)
  then show "size_t (wrap_int (chunk_size - chunk_overlap)) = nat (chunk_size - chunk_overlap)"
    using assms(2) d by (simp add: size_t_nat)
qed

lemma fallback_loop_valid:
  assumes v: "0 < chunk_overlap" "chunk_overlap < chunk_size"
    and r: "representable text chunk_size chunk_overlap"
    and P: "P i chunks"
    and step: "\<And>i chunks. P i chunks \<Longrightarrow> i < length text \<Longrightarrow>
       P (i + nat (chunk_size - chunk_overlap)) (chunks @ [take (nat chunk_size) (drop i text)])"
  shows "\<exists>r j. fallback_loop text chunk_size chunk_overlap i chunks = Some r
               \<and> length text \<le> j \<and> P j r"
proof -
  from r have len: "length text < 2 ^ 63"
    and cs: "c_int chunk_size" and co: "c_int chunk_overlap"
    by (simp_all add: representable_def)
  note sz = valid_config_sizes [OF v cs co]
  let ?S = "nat (chunk_size - chunk_overlap)"
  have "0 \<le> chunk_size" using v by simp
  then have C: "nat chunk_size < 2 ^ 63"
    using cs by (simp add: nat_less_iff c_int_def INT_MAX_def)
  have S: "?S = size_t (wrap_int (chunk_size - chunk_overlap))"
    using sz(3) by simp
  have pos: "0 < ?S" using v by simp
  have "?S \<le> nat chunk_size" using v by simp
  with C len have nowrap: "length text + ?S \<le> 2 ^ 64" by simp
  show ?thesis
  proof (rule fallback_loop_rule [where P = P, OF S pos nowrap P])
    fix i chunks
    assume a: "P i chunks" "i < length text"
    from fallback_chunk [OF a(2) len C] step [OF a]
    show "P (i + ?S)
       (chunks @ [substr text i (size_sub (min (size_add i (size_t chunk_size)) (length text)) i)])"
      by (simp add: sz(1))
  qed
qed









subsection \<open>Coverage of the fixed-width chunks\<close>

lemma str_find_newline:
  assumes "str_find text (separator t) pos = Some k"
  shows "CHR 0x0A \<in> set text"
proof -
  from str_find_bounds(3) [OF assms]
  have "set (separator t) \<subseteq> set (drop k text)"
    by (metis set_take_subset)
  moreover have "set (drop k text) \<subseteq> set text"
    by (rule set_drop_subset)
  moreover have "CHR 0x0A \<in> set (separator t)"
    by (cases t) (simp_all add: double_newline_def single_newline_def)
  ultimately show ?thesis by blast
qed

lemma no_newline_split_by:
  assumes "CHR 0x0A \<notin> set text"
  shows "split_by t text = ([], False)"
proof -
  have "str_find text (separator t) 0 = None"
    using assms str_find_newline [of "text" t 0] by (cases "str_find text (separator t) 0") auto
  then have "split_loop t text 0 [] False = (0, [], False)"
    by (simp add: split_loop.simps [of t "text" 0])
  then show ?thesis by (simp add: split_by_def)
qed

lemma reassemble_snoc:
  "acc \<noteq> [] \<Longrightarrow> reassemble n (acc @ [c]) = reassemble n acc @ drop n c"
  by (cases acc) simp_all

text \<open>
  Claim C3. For a text without line breaks and \<open>0 < chunk_overlap < chunk_size <
  len(text)\<close>, the chunks that \<open>split_text\<close> returns, concatenated after removing the
  leading \<open>chunk_overlap\<close> characters of every chunk after the first, are the text.
\<close>

theorem fallback_coverage:
  assumes "0 < chunk_overlap" and "chunk_overlap < chunk_size"
    and "chunk_size < int (length text)"
    and "CHR 0x0A \<notin> set text"
    and "representable text chunk_size chunk_overlap"
  shows "\<exists>chunks. split_text text chunk_size chunk_overlap = Some (Inr chunks)
                  \<and> reassemble (nat chunk_overlap) chunks = text"
proof -
  let ?n = "nat chunk_overlap" and ?C = "nat chunk_size"
  let ?S = "nat (chunk_size - chunk_overlap)"
  let ?P = "\<lambda>i chunks. (i = 0 \<and> chunks = [])
              \<or> (chunks \<noteq> [] \<and> reassemble ?n chunks = take (i + ?n) text)"
  from assms(5) have cs: "c_int chunk_size" and co: "c_int chunk_overlap"
    by (simp_all add: representable_def)
  note sz = valid_config_sizes [OF assms(1,2) cs co]
  have sum: "?S + ?n = ?C" using assms(1,2) by simp
  have step: "?P (i + ?S) (chunks @ [take ?C (drop i text)])"
    if P: "?P i chunks" and "i < length text" for i chunks
  proof (cases "chunks = []")
    case True
    with P have "i = 0" by simp
    with True sum show ?thesis by simp
  next
    case False
    with P have inv: "reassemble ?n chunks = take (i + ?n) text" by simp
    have "?C - ?n = ?S" using sum by linarith
    then have "drop ?n (take ?C (drop i text)) = take ?S (drop (i + ?n) text)"
      by (simp add: drop_take add.commute)
    then have "reassemble ?n (chunks @ [take ?C (drop i text)])
          = take (i + ?n) text @ take ?S (drop (i + ?n) text)"
      using False inv by (simp add: reassemble_snoc)
    also have "\<dots> = take (i + ?n + ?S) text"
      by (simp add: take_add)
    finally show ?thesis
      by (simp add: add.assoc add.commute [of ?n ?S])
  qed
  from fallback_loop_valid [where P = ?P and i = 0 and chunks = "[]", OF assms(1,2,5) _ step]
  obtain r j where run: "fallback_loop text chunk_size chunk_overlap 0 [] = Some r"
    and j: "length text \<le> j" and Pj: "?P j r"
    by auto
  have "0 < length text" using assms(1,2,3) by linarith
  with j Pj have "reassemble ?n r = take (j + ?n) text" by auto
  with j have res: "reassemble ?n r = text" by simp
  have "nat chunk_size < length text"
    using assms(1,2,3) by (simp add: nat_less_iff)
  then have "\<not> length text \<le> size_t chunk_size"
    using sz(1) by simp
  moreover have "size_t (wrap_int (chunk_size - chunk_overlap)) \<noteq> 0"
    using sz(3) assms(2) by simp
  ultimately have "split_text text chunk_size chunk_overlap = Some (Inr r)"
    using run no_newline_split_by [OF assms(4)] by (simp add: split_text_cases)
  with res show ?thesis by simp
qed

theorem fallback_coverage_witness:
  "(0::int) < 8 \<and> (8::int) < 9 \<and> 9 < int (length ''abcdefghij'')
   \<and> CHR 0x0A \<notin> set ''abcdefghij'' \<and> representable ''abcdefghij'' 9 8
   \<and> (\<exists>chunks. split_text ''abcdefghij'' 9 8 = Some (Inr chunks)
                 \<and> reassemble (nat 8) chunks = ''abcdefghij'')"
proof -
  have r: "representable ''abcdefghij'' 9 8"
    by (simp add: representable_def c_int_def INT_MAX_def INT_MIN_def)
  have n: "CHR 0x0A \<notin> set ''abcdefghij''" by simp
  from fallback_coverage [OF _ _ _ n r] r n show ?thesis by simp
qed

subsection \<open>The length of a chunk\<close>

text \<open>
  After a round of the merge loop the buffer is the split alone, or the overlap carry,
  the separator and the split, or it has grown within \<open>chunk_size\<close>.
\<close>

lemma merge_step_bound:
  assumes st: "merge_step sep chunk_size chunk_overlap (chunks, current_chunk) split
               = (chunks', current_chunk')"
    and chunks: "\<forall>c\<in>set chunks. length c \<le> C \<or> (\<exists>s\<in>A. length c \<le> size_t chunk_overlap + length sep + length s)"
    and cur: "length current_chunk \<le> C \<or> (\<exists>s\<in>A. length current_chunk \<le> size_t chunk_overlap + length sep + length s)"
    and C: "C = size_t chunk_size" and A: "split \<in> A"
  shows "(\<forall>c\<in>set chunks'. length c \<le> C \<or> (\<exists>s\<in>A. length c \<le> size_t chunk_overlap + length sep + length s))
         \<and> (length current_chunk' \<le> C \<or> (\<exists>s\<in>A. length current_chunk' \<le> size_t chunk_overlap + length sep + length s))"
proof -
  let ?Q = "\<lambda>c. length c \<le> C \<or> (\<exists>s\<in>A. length c \<le> size_t chunk_overlap + length sep + length s)"
  let ?emit = "current_chunk \<noteq> [] \<and> length current_chunk + length split + length sep > size_t chunk_size"
  let ?carry = "chunk_overlap > 0 \<and> length current_chunk > size_t chunk_overlap"
  have by_split: "?Q c" if "length c \<le> size_t chunk_overlap + length sep + length split" for c
    using that A by blast
  show ?thesis
  proof (cases ?emit)
    case False
    with st have c': "chunks' = chunks"
      and b': "current_chunk' = (if current_chunk = [] then split else current_chunk @ sep @ split)"
      by (auto simp: merge_step_def)
    have "?Q current_chunk'"
    proof (cases "current_chunk = []")
      case True
      with b' show ?thesis by (intro by_split) simp
    next
      case nonempty: False
      with False have "length current_chunk + length split + length sep \<le> C"
        using C by simp
      with nonempty b' show ?thesis by simp
    qed
    with c' chunks show ?thesis by simp
  next
    case True
    let ?b = "if ?carry then substr_from current_chunk (length current_chunk - size_t chunk_overlap) else []"
    from True st have c': "chunks' = chunks @ [current_chunk]"
      and b': "current_chunk' = (if ?b = [] then split else ?b @ sep @ split)"
      by (auto simp: merge_step_def)
    have "length ?b \<le> size_t chunk_overlap"
      by (simp add: substr_from_def)
    then have "length current_chunk' \<le> size_t chunk_overlap + length sep + length split"
      unfolding b' by (cases "?b = []") simp_all
    then have "?Q current_chunk'" by (rule by_split)
    with c' chunks cur show ?thesis by simp
  qed
qed

lemma foldl_merge_step_bound:
  assumes "foldl (merge_step sep chunk_size chunk_overlap) (chunks, current_chunk) splits
           = (chunks', current_chunk')"
    and "\<forall>c\<in>set chunks. length c \<le> C \<or> (\<exists>s\<in>A. length c \<le> size_t chunk_overlap + length sep + length s)"
    and "length current_chunk \<le> C \<or> (\<exists>s\<in>A. length current_chunk \<le> size_t chunk_overlap + length sep + length s)"
    and "C = size_t chunk_size" and "set splits \<subseteq> A"
  shows "(\<forall>c\<in>set chunks'. length c \<le> C \<or> (\<exists>s\<in>A. length c \<le> size_t chunk_overlap + length sep + length s))
         \<and> (length current_chunk' \<le> C \<or> (\<exists>s\<in>A. length current_chunk' \<le> size_t chunk_overlap + length sep + length s))"
  using assms
proof (induction splits arbitrary: chunks current_chunk)
  case Nil
  then show ?case by simp
next
  case (Cons s splits)
  obtain c1 b1 where st: "merge_step sep chunk_size chunk_overlap (chunks, current_chunk) s = (c1, b1)"
    by (cases "merge_step sep chunk_size chunk_overlap (chunks, current_chunk) s")
  from Cons.prems(5) have s: "s \<in> A" and rest: "set splits \<subseteq> A" by simp_all
  from merge_step_bound [OF st Cons.prems(2,3,4) s]
  have c1: "\<forall>c\<in>set c1. length c \<le> C \<or> (\<exists>s\<in>A. length c \<le> size_t chunk_overlap + length sep + length s)"
    and b1: "length b1 \<le> C \<or> (\<exists>s\<in>A. length b1 \<le> size_t chunk_overlap + length sep + length s)"
    by simp_all
  have run: "foldl (merge_step sep chunk_size chunk_overlap) (c1, b1) splits = (chunks', current_chunk')"
    using Cons.prems(1) st by simp
  show ?case
    by (rule Cons.IH [OF run c1 b1 Cons.prems(4) rest])
qed

lemma merge_splits_bound:
  assumes "c \<in> set (merge_splits sep chunk_size chunk_overlap splits [])"
  shows "length c \<le> size_t chunk_size
         \<or> (\<exists>s\<in>set splits. length c \<le> size_t chunk_overlap + length sep + length s)"
proof -
  obtain chunks' b where f: "foldl (merge_step sep chunk_size chunk_overlap) ([], []) splits = (chunks', b)"
    by (cases "foldl (merge_step sep chunk_size chunk_overlap) ([], []) splits")
  from foldl_merge_step_bound [OF f, of "size_t chunk_size" "set splits"]
  have all: "\<forall>c\<in>set chunks'. length c \<le> size_t chunk_size
               \<or> (\<exists>s\<in>set splits. length c \<le> size_t chunk_overlap + length sep + length s)"
    and last: "length b \<le> size_t chunk_size
               \<or> (\<exists>s\<in>set splits. length b \<le> size_t chunk_overlap + length sep + length s)"
    by simp_all
  from assms f have "c \<in> set chunks' \<or> c = b"
    by (auto simp: merge_splits_def split: if_splits)
  with all last show ?thesis by blast
qed

text \<open>
  Claim C4, as stated, fails: with \<open>chunk_size = 10\<close> and \<open>chunk_overlap = 5\<close>, three
  paragraphs of 8 characters give two chunks of 15 characters, the carry of 5, the
  separator and a paragraph, although no segment is longer than \<open>chunk_size\<close>.
\<close>

theorem oversized_chunks_counterexample:
  "split_text (''aaaaaaaa'' @ double_newline @ ''bbbbbbbb'' @ double_newline @ ''cccccccc'') 10 5
     = Some (Inr [''aaaaaaaa'',
                  ''aaaaa'' @ double_newline @ ''bbbbbbbb'',
                  ''bbbbb'' @ double_newline @ ''cccccccc''])
   \<and> split_by Paragraph (''aaaaaaaa'' @ double_newline @ ''bbbbbbbb'' @ double_newline @ ''cccccccc'')
     = ([''aaaaaaaa'', ''bbbbbbbb'', ''cccccccc''], True)
   \<and> length (''aaaaa'' @ double_newline @ ''bbbbbbbb'') = 15
   \<and> length (''bbbbb'' @ double_newline @ ''cccccccc'') = 15"
  by code_simp

text \<open>
  Claim C4, amended. For every text and valid configuration, every chunk that
  \<open>split_text\<close> returns has at most \<open>chunk_size\<close> characters, or at most
  \<open>chunk_overlap + len(separator) + len(s)\<close> characters for a segment \<open>s\<close> of a
  separator tier. So a chunk longer than \<open>chunk_size\<close> needs a segment longer than
  \<open>chunk_size - chunk_overlap - len(separator)\<close>; there may be several such chunks.
\<close>

theorem chunk_length_bound:
  assumes "0 < chunk_overlap" and "chunk_overlap < chunk_size"
    and "representable text chunk_size chunk_overlap"
    and "split_text text chunk_size chunk_overlap = Some (Inr chunks)"
    and "c \<in> set chunks"
  shows "length c \<le> nat chunk_size
         \<or> (\<exists>t. \<exists>s\<in>set (fst (split_by t text)).
                length c \<le> nat chunk_overlap + length (separator t) + length s)"
proof -
  from assms(3) have cs: "c_int chunk_size" and co: "c_int chunk_overlap"
    by (simp_all add: representable_def)
  note sz = valid_config_sizes [OF assms(1,2) cs co]
  let ?mp = "merge_splits double_newline chunk_size chunk_overlap (fst (split_by Paragraph text)) []"
  let ?ml = "merge_splits single_newline chunk_size chunk_overlap (fst (split_by Line text)) []"
  consider (whole) "chunks = [text]" "length text \<le> size_t chunk_size"
    | (par_tier) "chunks = ?mp"
    | (line_tier) "chunks = ?ml"
    | (fixed) "fallback_loop text chunk_size chunk_overlap 0 [] = Some chunks"
    using assms(4) by (auto simp: split_text_cases split: if_splits)
  then show ?thesis
  proof cases
    case whole
    with assms(5) sz(1) show ?thesis by simp
  next
    case par_tier
    with assms(5) merge_splits_bound [of c double_newline chunk_size chunk_overlap "fst (split_by Paragraph text)"]
    have "length c \<le> nat chunk_size
          \<or> (\<exists>s\<in>set (fst (split_by Paragraph text)).
                 length c \<le> nat chunk_overlap + length (separator Paragraph) + length s)"
      by (simp add: sz)
    then show ?thesis by blast
  next
    case line_tier
    with assms(5) merge_splits_bound [of c single_newline chunk_size chunk_overlap "fst (split_by Line text)"]
    have "length c \<le> nat chunk_size
          \<or> (\<exists>s\<in>set (fst (split_by Line text)).
                 length c \<le> nat chunk_overlap + length (separator Line) + length s)"
      by (simp add: sz)
    then show ?thesis by blast
  next
    case fixed
    from fallback_loop_valid [where P = "\<lambda>i chunks. \<forall>c\<in>set chunks. length c \<le> nat chunk_size"
        and i = 0 and chunks = "[]", OF assms(1,2,3)]
    obtain r where "fallback_loop text chunk_size chunk_overlap 0 [] = Some r"
      and "\<forall>c\<in>set r. length c \<le> nat chunk_size"
      by auto
    with fixed assms(5) show ?thesis by simp
  qed
qed

theorem chunk_length_bound_witness:
  "(0::int) < 5 \<and> (5::int) < 10
   \<and> representable (''aaaaaaaa'' @ double_newline @ ''bbbbbbbb'') 10 5
   \<and> split_text (''aaaaaaaa'' @ double_newline @ ''bbbbbbbb'') 10 5
       = Some (Inr [''aaaaaaaa'', ''aaaaa'' @ double_newline @ ''bbbbbbbb''])
   \<and> (length (''aaaaa'' @ double_newline @ ''bbbbbbbb'') \<le> nat 10
        \<or> (\<exists>t. \<exists>s\<in>set (fst (split_by t (''aaaaaaaa'' @ double_newline @ ''bbbbbbbb''))).
               length (''aaaaa'' @ double_newline @ ''bbbbbbbb'')
               \<le> nat 5 + length (separator t) + length s))"
proof -
  let ?text = "''aaaaaaaa'' @ double_newline @ ''bbbbbbbb''"
  have r: "representable ?text 10 5"
    by (simp add: representable_def c_int_def INT_MAX_def INT_MIN_def double_newline_def)
  have run: "split_text ?text 10 5 = Some (Inr [''aaaaaaaa'', ''aaaaa'' @ double_newline @ ''bbbbbbbb''])"
    by code_simp
  from chunk_length_bound [OF _ _ r run, of "''aaaaa'' @ double_newline @ ''bbbbbbbb''"] r run
  show ?thesis by simp
qed

end
